theory Spec2Isabelle
  imports Complex_Main "HOL-Library.Word"
begin

section \<open>NumPy arrays as used by the Pong notebook\<close>

text \<open>
  An \<open>ndarray\<close> is its shape together with its elements in row-major (C) order.
  A screen frame is an \<open>8 word ndarray\<close> (dtype uint8) of shape \<open>(rows, columns,
  channels)\<close>. NumPy keeps the number of elements equal to the product of the shape;
  that is \<open>valid\<close>.
\<close>

record 'a ndarray =
  shape :: "nat list"
  data :: "'a list"

definition valid :: "'a ndarray \<Rightarrow> bool" where
  "valid a = (length (data a) = prod_list (shape a))"

datatype error = IndexError | AxisError | ValueError

text \<open>
  A slice \<open>start:stop:step\<close>. A missing \<open>start\<close> or \<open>stop\<close> is \<open>None\<close>; the
  notebook only uses the steps 1 (the default) and 2, so the step is a natural number,
  and NumPy rejects step 0 with a ValueError.
\<close>

datatype slice = Slice (start: "int option") (stop: "int option") (step: nat)

definition full :: slice where
  "full = Slice None None 1"

text \<open>
  Python clips a slice bound to the axis: a negative bound counts from the end and
  stops at 0, any other bound stops at the length of the axis.
\<close>

definition clip :: "int \<Rightarrow> nat \<Rightarrow> nat" where
  "clip k n = (if k < 0 then nat (max 0 (k + int n)) else min (nat k) n)"

text \<open>\<open>range(lo, hi, step)\<close> for a positive step.\<close>

definition py_range :: "nat \<Rightarrow> nat \<Rightarrow> nat \<Rightarrow> nat list" where
  "py_range lo hi st = map (\<lambda>k. lo + k * st) [0..<(hi - lo + st - 1) div st]"

text \<open>The positions that a slice selects on an axis of length \<open>n\<close>.\<close>

definition indices :: "slice \<Rightarrow> nat \<Rightarrow> nat list" where
  "indices s n =
     py_range (case start s of None \<Rightarrow> 0 | Some k \<Rightarrow> clip k n)
              (case stop s of None \<Rightarrow> n | Some k \<Rightarrow> clip k n)
              (step s)"

text \<open>The \<open>i\<close>-th block of \<open>m\<close> consecutive elements of a buffer.\<close>

definition block :: "nat \<Rightarrow> nat \<Rightarrow> 'a list \<Rightarrow> 'a list" where
  "block m i xs = take m (drop (i * m) xs)"

text \<open>
  Basic indexing \<open>a[s0, s1, ...]\<close> with slices only: the \<open>k\<close>-th slice selects
  positions along axis \<open>k\<close>, and the axes that have no slice are kept whole.
  \<open>take_axes\<close> works on the elements of a sub-array whose shape is its second
  argument, \<open>take_shape\<close> is the shape of the result.
\<close>

fun take_axes :: "slice list \<Rightarrow> nat list \<Rightarrow> 'a list \<Rightarrow> 'a list" where
  "take_axes [] sh xs = xs"
| "take_axes (s # ss) [] xs = xs"
| "take_axes (s # ss) (n # sh) xs =
     concat (map (\<lambda>i. take_axes ss sh (block (prod_list sh) i xs)) (indices s n))"

fun take_shape :: "slice list \<Rightarrow> nat list \<Rightarrow> nat list" where
  "take_shape [] sh = sh"
| "take_shape (s # ss) [] = []"
| "take_shape (s # ss) (n # sh) = length (indices s n) # take_shape ss sh"

text \<open>More slices than axes is NumPy's ``too many indices for array''.\<close>

definition getitem :: "slice list \<Rightarrow> 'a ndarray \<Rightarrow> error + 'a ndarray" where
  "getitem ss a =
     (if length (shape a) < length ss then Inl IndexError
      else if list_ex (\<lambda>s. step s = 0) ss then Inl ValueError
      else Inr \<lparr>shape = take_shape ss (shape a),
                data = take_axes ss (shape a) (data a)\<rparr>)"

text \<open>
  \<open>np.sum(a, axis=k)\<close> on a uint8 array: the axis must exist, the result drops it,
  and the element at \<open>(p, t)\<close> of the result (\<open>p\<close> ranging over the axes before
  \<open>k\<close>, \<open>t\<close> over those after it) adds the elements at \<open>(p, j, t)\<close>. NumPy adds
  uint8 values in the platform's unsigned integer, which three channels of at most 255
  cannot overflow; the sum is a natural number here.
\<close>

definition np_sum :: "nat \<Rightarrow> 8 word ndarray \<Rightarrow> error + nat ndarray" where
  "np_sum axis a =
     (if length (shape a) \<le> axis then Inl AxisError
      else
        let outer = prod_list (take axis (shape a));
            n = shape a ! axis;
            inner = prod_list (drop (Suc axis) (shape a))
        in Inr \<lparr>shape = take axis (shape a) @ drop (Suc axis) (shape a),
                data = concat (map (\<lambda>p. map (\<lambda>t.
                         sum_list (map (\<lambda>j. unat (data a ! ((p * n + j) * inner + t))) [0..<n]))
                         [0..<inner]) [0..<outer])\<rparr>)"

text \<open>\<open>np.zeros(shape)\<close>: a float array of zeros.\<close>

definition np_zeros :: "nat list \<Rightarrow> real ndarray" where
  "np_zeros sh = \<lparr>shape = sh, data = replicate (prod_list sh) 0\<rparr>"

text \<open>\<open>a != v\<close>, elementwise.\<close>

definition np_not_equal :: "nat ndarray \<Rightarrow> nat \<Rightarrow> bool ndarray" where
  "np_not_equal a v = \<lparr>shape = shape a, data = map (\<lambda>x. x \<noteq> v) (data a)\<rparr>"

text \<open>
  \<open>a[mask] = v\<close> with a boolean mask: the mask must have the shape of \<open>a\<close>, and
  \<open>v\<close> is stored wherever the mask is true.
\<close>

definition setitem_mask :: "bool ndarray \<Rightarrow> 'a \<Rightarrow> 'a ndarray \<Rightarrow> error + 'a ndarray" where
  "setitem_mask msk v a =
     (if shape msk \<noteq> shape a then Inl IndexError
      else Inr \<lparr>shape = shape a,
                data = map2 (\<lambda>m x. if m then v else x) (data msk) (data a)\<rparr>)"

text \<open>
  Element access: \<open>a[i, j, k]\<close> on a three-axis array and \<open>a[i, j]\<close> on a
  two-axis array, by the row-major offset of the element.
\<close>

definition offset3 :: "'a ndarray \<Rightarrow> nat \<Rightarrow> nat \<Rightarrow> nat \<Rightarrow> nat" where
  "offset3 a i j k = (i * (shape a ! 1) + j) * (shape a ! 2) + k"

definition item3 :: "'a ndarray \<Rightarrow> nat \<Rightarrow> nat \<Rightarrow> nat \<Rightarrow> 'a" where
  "item3 a i j k = data a ! offset3 a i j k"

definition item2 :: "'a ndarray \<Rightarrow> nat \<Rightarrow> nat \<Rightarrow> 'a" where
  "item2 a i j = data a ! (i * (shape a ! 1) + j)"

text \<open>The sum of the channels of the pixel in row \<open>i\<close> and column \<open>j\<close>.\<close>

definition channel_sum :: "8 word ndarray \<Rightarrow> nat \<Rightarrow> nat \<Rightarrow> nat" where
  "channel_sum a i j = sum_list (map (\<lambda>k. unat (item3 a i j k)) [0..<shape a ! 2])"


section \<open>The Pong environment\<close>

text \<open>
  \<open>PongEnv\<close> extends the library's \<open>GymEnvironment\<close>. Its fields: the wrapped gym
  emulator (\<open>self.env\<close>, of a type the notebook never looks into), the raw screen
  (\<open>self._state\<close>), the end-of-game flag (\<open>self._terminated\<close>), and the two
  attributes \<open>_state_shape\<close> and \<open>n_actions\<close>.
\<close>

record 'g PongEnv =
  gym :: 'g
  raw_state :: "8 word ndarray"
  terminated :: bool
  state_shape :: "nat list"
  n_actions :: nat

text \<open>
  \<open>PongEnv.__init__\<close>: the constructor of the base class (outside the notebook, a
  parameter here) builds the environment for the name \<open>'Pong-v0'\<close>, then the
  attribute \<open>_state_shape\<close> is set to \<open>(80, 80)\<close>.
\<close>

definition PongEnv_init :: "(string \<Rightarrow> 'g PongEnv) \<Rightarrow> 'g PongEnv" where
  "PongEnv_init super_init = (super_init ''Pong-v0'')\<lparr>state_shape := [80, 80]\<rparr>"

text \<open>
  The \<open>state\<close> property:
  \<^verbatim>\<open>
    cropped = np.array(self._state)[34:194, :, :]
    reduced = cropped[0:-1:2, 0:-1:2]
    grayscale = np.sum(reduced, axis=2)
    bw = np.zeros(grayscale.shape)
    bw[grayscale != 233] = 1
    return bw
  \<close>
  \<open>np.array\<close> copies the frame, which leaves the value as it is.
\<close>

definition state :: "'g PongEnv \<Rightarrow> error + real ndarray" where
  "state self =
     (case getitem [Slice (Some 34) (Some 194) 1, full, full] (raw_state self) of
        Inl e \<Rightarrow> Inl e
      | Inr cropped \<Rightarrow>
     (case getitem [Slice (Some 0) (Some (- 1)) 2, Slice (Some 0) (Some (- 1)) 2] cropped of
        Inl e \<Rightarrow> Inl e
      | Inr reduced \<Rightarrow>
     (case np_sum 2 reduced of
        Inl e \<Rightarrow> Inl e
      | Inr grayscale \<Rightarrow>
          setitem_mask (np_not_equal grayscale 233) 1 (np_zeros (shape grayscale)))))"

text \<open>\<open>PongEnv.__deepcopy__(self, memo)\<close> is \<open>return PongEnv()\<close>.\<close>

definition deepcopy :: "(string \<Rightarrow> 'g PongEnv) \<Rightarrow> 'g PongEnv \<Rightarrow> 'm \<Rightarrow> 'g PongEnv" where
  "deepcopy super_init self memo = PongEnv_init super_init"

text \<open>
  The array that \<open>state\<close> would return if it stopped at the grayscale image, in the
  words of claim C1: the crop to the rows 34 to 193, every second row and every second
  column of the crop, and for each pixel kept the sum of its colour channels.
\<close>

definition grayscale_crop :: "8 word ndarray \<Rightarrow> real ndarray" where
  "grayscale_crop a =
     (let rows = (min (shape a ! 0) 194 - 34 + 1) div 2;
          cols = (shape a ! 1 + 1) div 2
      in \<lparr>shape = [rows, cols],
          data = concat (map (\<lambda>i. map (\<lambda>j. real (channel_sum a (34 + 2 * i) (2 * j)))
                    [0..<cols]) [0..<rows])\<rparr>)"

text \<open>
  An example screen of the standard size: the background colour \<open>(144, 72, 17)\<close>
  everywhere and one white pixel \<open>(236, 236, 236)\<close> in row 100, column 80.
\<close>

definition pong_frame :: "8 word ndarray" where
  "pong_frame =
     \<lparr>shape = [210, 160, 3],
      data = map (\<lambda>p. if p div 3 = 100 * 160 + 80 then 236 else [144, 72, 17] ! (p mod 3))
               [0..<100800]\<rparr>"

definition pong_env :: "nat PongEnv" where
  "pong_env = \<lparr>gym = 0, raw_state = pong_frame, terminated = False,
               state_shape = [80, 80], n_actions = 6\<rparr>"

section \<open>The policy\<close>

text \<open>
  \<open>PongPolicy.__init__\<close> passes the names of the outputs and the initial states of
  the recurrent layers to the base class: \<open>['action_prob', 'value', 'rnn_state']\<close>
  and \<open>[np.zeros(16)]\<close>.
\<close>

record policy =
  output_names :: "string list"
  rnn_initial_states :: "real list list"

definition PongPolicy_init :: policy where
  "PongPolicy_init =
     \<lparr>output_names = [''action_prob'', ''value'', ''rnn_state''],
      rnn_initial_states = [replicate 16 0]\<rparr>"

text \<open>
  \<open>create_model\<close> declares a network with the Keras functional interface. A layer
  applied to its input is a term; the GRU call returns two tensors, the sequence of its
  outputs and its final state, and \<open>gru_output\<close> says which of the two a term is.
  The three flags of the GRU are \<open>return_state\<close>, \<open>return_sequences\<close> and
  \<open>time_major\<close>; a \<open>Dense\<close> layer without an activation is \<open>Linear\<close>.
\<close>

datatype activation = Linear | Relu | Softmax

datatype gru_output = Sequence | FinalState

datatype layer =
    Input "nat list"
  | Reshape "int list" layer
  | Conv2D nat nat nat activation layer
  | Dense nat activation layer
  | Flatten layer
  | GRU nat bool bool bool gru_output layer layer
  | Concatenate "layer list"

record keras_model =
  inputs :: "layer list"
  outputs :: "layer list"

text \<open>
  \<^verbatim>\<open>
    state = Input(shape=(80, 80))
    rnn_state = Input(shape=(16,))
    conv1 = Conv2D(16, kernel_size=8, strides=4, activation=tf.nn.relu)(Reshape((80, 80, 1))(state))
    conv2 = Conv2D(32, kernel_size=4, strides=2, activation=tf.nn.relu)(conv1)
    dense = Dense(256, activation=tf.nn.relu)(Flatten()(conv2))
    gru, rnn_final_state = GRU(16, return_state=True, return_sequences=True, time_major=True)(
        Reshape((-1, 256))(dense), initial_state=rnn_state)
    concat = Concatenate()([dense, Reshape((16,))(gru)])
    action_prob = Dense(env.n_actions, activation=tf.nn.softmax)(concat)
    value = Dense(1)(concat)
    return tf.keras.Model(inputs=[state, rnn_state], outputs=[action_prob, value, rnn_final_state])
  \<close>
  \<open>env\<close> is the notebook's global environment; the arguments of \<open>Conv2D\<close> are the
  filters, the kernel size and the strides, in this order.
\<close>

definition create_model :: "'g PongEnv \<Rightarrow> keras_model" where
  "create_model env =
     (let state_in = Input [80, 80];
          rnn_state = Input [16];
          conv1 = Conv2D 16 8 4 Relu (Reshape [80, 80, 1] state_in);
          conv2 = Conv2D 32 4 2 Relu conv1;
          dense = Dense 256 Relu (Flatten conv2);
          gru = GRU 16 True True True Sequence (Reshape [- 1, 256] dense) rnn_state;
          rnn_final_state = GRU 16 True True True FinalState (Reshape [- 1, 256] dense) rnn_state;
          concat = Concatenate [dense, Reshape [16] gru];
          action_prob = Dense (n_actions env) Softmax concat;
          value = Dense 1 Linear concat
      in \<lparr>inputs = [state_in, rnn_state], outputs = [action_prob, value, rnn_final_state]\<rparr>)"

section \<open>The play loop\<close>

text \<open>
  \<^verbatim>\<open>
    env.reset()
    while not env.terminated:
        env.env.render()
        env.step(a2c.select_action(env.state))
  \<close>
  \<open>reset\<close> and \<open>step\<close> are methods of the base class of the environment,
  \<open>render\<close> is a method of the wrapped gym emulator and \<open>select_action\<close> one of
  the trainer; none of them is defined in the notebook, so they are parameters, each
  acting on the object it is called on. \<open>select_action\<close> may change the trainer (its
  recurrent state, its random numbers), so it returns the new trainer with the action.
\<close>

record ('g, 'p, 'act) library =
  env_reset :: "'g PongEnv \<Rightarrow> 'g PongEnv"
  env_step :: "'act \<Rightarrow> 'g PongEnv \<Rightarrow> 'g PongEnv"
  gym_render :: "'g \<Rightarrow> 'g"
  select_action :: "real ndarray \<Rightarrow> 'p \<Rightarrow> 'act \<times> 'p"

text \<open>
  The calls that the loop makes are recorded, each with the environment and the trainer
  as they are when the call is made.
\<close>

datatype 'act event = Reset | Render | Step 'act

type_synonym ('g, 'p, 'act) entry = "'act event \<times> 'g PongEnv \<times> 'p"

record ('g, 'p, 'act) config =
  env :: "'g PongEnv"
  a2c :: 'p
  trace :: "('g, 'p, 'act) entry list"

text \<open>
  The loop need not end, so it runs on fuel: \<open>Finished\<close> when the test of the loop
  found the game over, \<open>Raised\<close> when \<open>env.state\<close> raised, \<open>Running\<close> when
  the fuel ran out with the game still on.
\<close>

datatype 'c outcome = Finished 'c | Raised error 'c | Running 'c

fun final :: "'c outcome \<Rightarrow> 'c" where
  "final (Finished c) = c"
| "final (Raised e c) = c"
| "final (Running c) = c"

fun play_loop :: "('g, 'p, 'act) library \<Rightarrow> nat \<Rightarrow> ('g, 'p, 'act) config
    \<Rightarrow> ('g, 'p, 'act) config outcome" where
  "play_loop L 0 c = (if terminated (env c) then Finished c else Running c)"
| "play_loop L (Suc n) c =
     (if terminated (env c) then Finished c
      else
        let e1 = (env c)\<lparr>gym := gym_render L (gym (env c))\<rparr>;
            t1 = trace c @ [(Render, env c, a2c c)]
        in case state e1 of
             Inl err \<Rightarrow> Raised err (c\<lparr>env := e1, trace := t1\<rparr>)
           | Inr s \<Rightarrow>
               let (a, p') = select_action L s (a2c c)
               in play_loop L n
                    \<lparr>env = env_step L a e1, a2c = p', trace = t1 @ [(Step a, e1, a2c c)]\<rparr>)"

definition play :: "('g, 'p, 'act) library \<Rightarrow> nat \<Rightarrow> 'g PongEnv \<Rightarrow> 'p
    \<Rightarrow> ('g, 'p, 'act) config outcome" where
  "play L n e p = play_loop L n \<lparr>env = env_reset L e, a2c = p, trace = [(Reset, e, p)]\<rparr>"

text \<open>
  The order of the calls. The first render after the reset finds the environment that
  the reset left; the step after a render finds the environment that the render left,
  and its action is the one that \<open>select_action\<close> chose from \<open>env.state\<close>
  of that environment; the render after a step finds the environment that the step left
  and the trainer that \<open>select_action\<close> left. No other call follows another.
\<close>

fun next_call :: "('g, 'p, 'act) library \<Rightarrow> ('g, 'p, 'act) entry \<Rightarrow> ('g, 'p, 'act) entry
    \<Rightarrow> bool" where
  "next_call L (Reset, e0, p0) (Render, e, p) = (e = env_reset L e0 \<and> p = p0)"
| "next_call L (Render, e, p) (Step a, e1, p1) =
     (e1 = e\<lparr>gym := gym_render L (gym e)\<rparr> \<and> p1 = p \<and>
      (case state e1 of Inl err \<Rightarrow> False | Inr s \<Rightarrow> a = fst (select_action L s p)))"
| "next_call L (Step a, e1, p1) (Render, e, p) =
     (e = env_step L a e1 \<and>
      (case state e1 of Inl err \<Rightarrow> False | Inr s \<Rightarrow> p = snd (select_action L s p1)))"
| "next_call L x y = False"

text \<open>
  The calls of as many full turns of the loop as there are actions in the list: for each
  action a render and then the step with that action.
\<close>

definition render_step_pairs :: "'act list \<Rightarrow> 'act event list" where
  "render_step_pairs acts = concat (map (\<lambda>a. [Render, Step a]) acts)"

text \<open>
  An example library: a game that lasts as many steps as the counter in the emulator
  says, a reset that sets the counter to 2, a render that shows the screen and changes
  nothing, and a trainer that always chooses action 0.
\<close>

definition demo_library :: "(nat, unit, nat) library" where
  "demo_library =
     \<lparr>env_reset = (\<lambda>e. e\<lparr>gym := 2, terminated := False\<rparr>),
      env_step = (\<lambda>a e. e\<lparr>gym := gym e - 1, terminated := (gym e \<le> 1)\<rparr>),
      gym_render = (\<lambda>g. g),
      select_action = (\<lambda>s p. (0, p))\<rparr>"

text \<open>
  What the calls recorded so far satisfy: the record starts with the entry \<open>x\<close>,
  each call follows the one before it as \<open>next_call\<close> says, and every call after
  the first was made while the game was not over. \<open>at_test\<close> adds what holds
  whenever the test of the loop is reached: a render made now would follow the last call.
\<close>

definition calls_ok :: "('g, 'p, 'act) library \<Rightarrow> ('g, 'p, 'act) entry \<Rightarrow> ('g, 'p, 'act) config \<Rightarrow> bool" where
  "calls_ok L x c =
     (trace c \<noteq> [] \<and> hd (trace c) = x \<and> successively (next_call L) (trace c) \<and>
      (\<forall>y\<in>set (tl (trace c)). \<not> terminated (fst (snd y))))"

definition at_test :: "('g, 'p, 'act) library \<Rightarrow> ('g, 'p, 'act) entry \<Rightarrow> ('g, 'p, 'act) config \<Rightarrow> bool" where
  "at_test L x c =
     (trace c \<noteq> [] \<and> hd (trace c) = x \<and> successively (next_call L) (trace c) \<and>
      (\<forall>y\<in>set (tl (trace c)). \<not> terminated (fst (snd y))) \<and>
      next_call L (last (trace c)) (Render, env c, a2c c))"

section \<open>Buffers, blocks and slices\<close>

lemma length_concat_map_const:
  "(\<And>i. i \<in> set idx \<Longrightarrow> length (f i) = m) \<Longrightarrow> length (concat (map f idx)) = length idx * m"
  by (induction idx) simp_all

lemma nth_concat_map_const:
  "(\<And>i. i \<in> set idx \<Longrightarrow> length (f i) = m) \<Longrightarrow> p < length idx \<Longrightarrow> q < m \<Longrightarrow>
   concat (map f idx) ! (p * m + q) = f (idx ! p) ! q"
proof (induction idx arbitrary: p)
  case Nil
  then show ?case by simp
next
  case (Cons x idx)
  show ?case
  proof (cases p)
    case 0
    with Cons.prems show ?thesis by (simp add: nth_append)
  next
    case (Suc p')
    have len: "length (f x) = m" using Cons.prems(1) by simp
    have "concat (map f (x # idx)) ! (p * m + q) = concat (map f idx) ! (p' * m + q)"
      using Suc len by (simp add: nth_append)
    also have "\<dots> = f (idx ! p') ! q"
      using Cons.IH [of p'] Cons.prems Suc by simp
    finally show ?thesis using Suc by simp
  qed
qed

lemma length_block: "Suc i * m \<le> length xs \<Longrightarrow> length (block m i xs) = m"
  by (simp add: block_def)

lemma nth_block: "Suc i * m \<le> length xs \<Longrightarrow> q < m \<Longrightarrow> block m i xs ! q = xs ! (i * m + q)"
  by (simp add: block_def)

lemma length_select:
  "(\<And>i. i \<in> set idx \<Longrightarrow> Suc i * m \<le> length xs) \<Longrightarrow>
   length (concat (map (\<lambda>i. block m i xs) idx)) = length idx * m"
  by (rule length_concat_map_const) (simp add: length_block)

lemma nth_select:
  "(\<And>i. i \<in> set idx \<Longrightarrow> Suc i * m \<le> length xs) \<Longrightarrow> p < length idx \<Longrightarrow> q < m \<Longrightarrow>
   concat (map (\<lambda>i. block m i xs) idx) ! (p * m + q) = xs ! (idx ! p * m + q)"
  using nth_concat_map_const [of idx "\<lambda>i. block m i xs" m p q]
  by (simp add: length_block nth_block)

lemma concat_blocks: "concat (map (\<lambda>i. block m i xs) [0..<n]) = take (n * m) xs"
proof (induction n)
  case 0
  show ?case by simp
next
  case (Suc n)
  have "take (n * m + m) xs = take (n * m) xs @ take m (drop (n * m) xs)"
    by (rule take_add)
  with Suc show ?case by (simp add: block_def add.commute)
qed

lemma indices_full: "indices full n = [0..<n]"
  by (simp add: indices_def full_def py_range_def map_idI)

lemma py_range_step1: "py_range lo hi (Suc 0) = [lo..<hi]"
proof -
  have "map (\<lambda>k. k + lo) [0..<hi - lo] = [lo..<hi - lo + lo]"
    by (rule map_add_upt)
  then show ?thesis
    by (cases "lo \<le> hi") (simp_all add: py_range_def add.commute)
qed

lemma indices_crop: "indices (Slice (Some 34) (Some 194) 1) h = [34..<min h 194]"
  by (simp add: indices_def py_range_step1 clip_def min_def del: upt_rec_numeral)

lemma indices_every_other: "indices (Slice (Some 0) (Some (- 1)) 2) n = map (\<lambda>k. 2 * k) [0..<n div 2]"
  by (cases n) (simp_all add: indices_def py_range_def clip_def mult.commute)

lemma take_axes_full2:
  assumes "length xs = w * c"
  shows "take_axes [full, full] [w, c] xs = xs"
proof -
  have "take_axes [full] [c] ys = take c ys" for ys :: "'a list"
    using concat_blocks [of 1 ys c] by (simp add: indices_full)
  then have "take_axes [full, full] [w, c] xs = concat (map (\<lambda>i. take c (block c i xs)) [0..<w])"
    by (simp add: indices_full)
  also have "\<dots> = concat (map (\<lambda>i. block c i xs) [0..<w])"
    by (simp add: block_def)
  also have "\<dots> = xs" using assms by (simp add: concat_blocks)
  finally show ?thesis .
qed

lemma block_rows_le:
  assumes "i < h" shows "Suc i * (w * c) \<le> h * w * c"
proof -
  have "Suc i * (w * c) \<le> h * (w * c)"
    using assms by (intro mult_le_mono1) simp
  then show ?thesis by (simp add: mult.assoc)
qed

lemma getitem_crop:
  assumes sh: "shape a = [h, w, c]" and len: "length (data a) = h * w * c"
  shows "getitem [Slice (Some 34) (Some 194) 1, full, full] a =
         Inr \<lparr>shape = [min h 194 - 34, w, c],
              data = concat (map (\<lambda>i. block (w * c) i (data a)) [34..<min h 194])\<rparr>"
proof -
  let ?S = "Slice (Some 34) (Some 194) 1"
  have row: "take_axes [full, full] [w, c] (block (w * c) i (data a)) = block (w * c) i (data a)"
    if "i \<in> set [34..<min h 194]" for i
  proof -
    from that have "i < h" by simp
    then have "length (block (w * c) i (data a)) = w * c"
      using block_rows_le [of i h w c] len by (simp add: length_block)
    then show ?thesis by (rule take_axes_full2)
  qed
  have "take_axes [?S, full, full] (shape a) (data a) =
        concat (map (\<lambda>i. take_axes [full, full] [w, c] (block (w * c) i (data a))) (indices ?S h))"
    unfolding sh by (subst take_axes.simps(3)) (simp del: take_axes.simps One_nat_def)
  also have "\<dots> = concat (map (\<lambda>i. block (w * c) i (data a)) [34..<min h 194])"
    unfolding indices_crop using row by (intro arg_cong [where f = concat] map_cong refl)
  finally have dat: "take_axes [?S, full, full] (shape a) (data a) =
                     concat (map (\<lambda>i. block (w * c) i (data a)) [34..<min h 194])" .
  have shp: "take_shape [?S, full, full] (shape a) = [min h 194 - 34, w, c]"
    by (simp add: sh indices_crop indices_full del: One_nat_def upt_rec_numeral)
  have stp: "\<not> list_ex (\<lambda>s. step s = 0) [?S, full, full]"
    by (simp add: full_def)
  show ?thesis
    unfolding getitem_def dat shp using stp by (simp add: sh)
qed

lemma getitem_reduce:
  assumes sh: "shape a = [n, w, c]"
  shows "getitem [Slice (Some 0) (Some (- 1)) 2, Slice (Some 0) (Some (- 1)) 2] a =
         Inr \<lparr>shape = [n div 2, w div 2, c],
              data = concat (map (\<lambda>i. concat (map (\<lambda>j. block c j (block (w * c) i (data a)))
                        (map (\<lambda>k. 2 * k) [0..<w div 2]))) (map (\<lambda>k. 2 * k) [0..<n div 2]))\<rparr>"
  by (simp add: getitem_def sh indices_every_other)

lemma concat_map_single: "concat (map (\<lambda>p. [f p]) xs) = map f xs"
  by (induction xs) simp_all

lemma np_sum_axis2:
  assumes sh: "shape a = [H, W, c]"
  shows "np_sum 2 a =
         Inr \<lparr>shape = [H, W],
              data = map (\<lambda>p. sum_list (map (\<lambda>j. unat (data a ! (p * c + j))) [0..<c])) [0..<H * W]\<rparr>"
  by (simp add: np_sum_def sh numeral_2_eq_2 concat_map_single)

lemma map2_replicate:
  "length xs = n \<Longrightarrow> map2 f (map g xs) (replicate n z) = map (\<lambda>x. f (g x) z) xs"
  by (induction xs arbitrary: n) auto

lemma flat_index_less:
  fixes i j H W :: nat
  assumes "i < H" "j < W" shows "i * W + j < H * W"
proof -
  have "i * W + j < i * W + W" using assms by simp
  also have "\<dots> = Suc i * W" by simp
  also have "\<dots> \<le> H * W" using assms by (intro mult_le_mono1) simp
  finally show ?thesis .
qed

lemma suc_mult_le:
  fixes i n m :: nat
  assumes "i < n" shows "Suc i * m \<le> n * m"
  using assms by (intro mult_le_mono1) simp

text \<open>The elements of a cropped array.\<close>
lemma crop_data:
  assumes len: "length xs = h * w * c"
  defines "cd \<equiv> concat (map (\<lambda>i. block (w * c) i xs) [34..<min h 194])"
  shows "length cd = (min h 194 - 34) * (w * c)"
    and "r < min h 194 - 34 \<Longrightarrow> q < w * c \<Longrightarrow> cd ! (r * (w * c) + q) = xs ! ((34 + r) * (w * c) + q)"
proof -
  have inb: "Suc i * (w * c) \<le> length xs" if "i \<in> set [34..<min h 194]" for i
  proof -
    from that have "i < h" by simp
    then show ?thesis using block_rows_le [of i h w c] len by simp
  qed
  show "length cd = (min h 194 - 34) * (w * c)"
    unfolding cd_def using length_select [of "[34..<min h 194]" "w * c" xs] inb
    by (simp del: upt_rec_numeral)
  show "cd ! (r * (w * c) + q) = xs ! ((34 + r) * (w * c) + q)"
    if "r < min h 194 - 34" "q < w * c"
  proof -
    have "[34..<min h 194] ! r = 34 + r"
      using that by (intro nth_upt) (simp add: min_def split: if_splits)
    then show ?thesis
      unfolding cd_def using nth_select [of "[34..<min h 194]" "w * c" xs r q] inb that
      by (simp del: upt_rec_numeral)
  qed
qed

text \<open>The elements of an array reduced to every other row and column.\<close>
lemma reduce_data:
  assumes len: "length cd = n * (w * c)"
  defines "rd \<equiv> concat (map (\<lambda>i. concat (map (\<lambda>j. block c j (block (w * c) i cd))
                        (map (\<lambda>k. 2 * k) [0..<w div 2]))) (map (\<lambda>k. 2 * k) [0..<n div 2]))"
  assumes i: "i < n div 2" and j: "j < w div 2" and k: "k < c"
  shows "rd ! ((i * (w div 2) + j) * c + k) = cd ! (2 * i * (w * c) + (2 * j * c + k))"
proof -
  let ?ev = "\<lambda>m. map (\<lambda>k. 2 * k) [0..<m div 2]"
  let ?row = "\<lambda>i. concat (map (\<lambda>j. block c j (block (w * c) i cd)) (?ev w))"
  have rowlen: "length (block (w * c) i' cd) = w * c" if "i' \<in> set (?ev n)" for i'
  proof -
    from that have "i' < n" by auto
    then show ?thesis using suc_mult_le [of i' n "w * c"] len by (simp add: length_block)
  qed
  have colin: "Suc j' * c \<le> length (block (w * c) i' cd)"
    if "i' \<in> set (?ev n)" "j' \<in> set (?ev w)" for i' j'
  proof -
    from that(2) have "j' < w" by auto
    then show ?thesis using suc_mult_le [of j' w c] rowlen [OF that(1)] by simp
  qed
  have len_row: "length (?row i') = (w div 2) * c" if "i' \<in> set (?ev n)" for i'
    using length_select [of "?ev w" c "block (w * c) i' cd"] colin [OF that] by simp
  have i2: "2 * i \<in> set (?ev n)" using i by auto
  have i2n: "2 * i < n" using i by simp
  have j2w: "2 * j < w" using j by simp
  have q: "j * c + k < (w div 2) * c" using j k by (rule flat_index_less)
  have q2: "2 * j * c + k < w * c" using j2w k by (rule flat_index_less)
  have eq: "(i * (w div 2) + j) * c + k = i * ((w div 2) * c) + (j * c + k)"
    by (simp add: algebra_simps)
  have "rd ! ((i * (w div 2) + j) * c + k) = concat (map ?row (?ev n)) ! (i * ((w div 2) * c) + (j * c + k))"
    unfolding rd_def by (simp only: eq)
  also have "\<dots> = ?row (?ev n ! i) ! (j * c + k)"
    using len_row i q by (intro nth_concat_map_const) simp_all
  also have "\<dots> = ?row (2 * i) ! (j * c + k)"
    using i by simp
  also have "\<dots> = block (w * c) (2 * i) cd ! (?ev w ! j * c + k)"
    using colin [OF i2] j k by (intro nth_select) simp_all
  also have "\<dots> = block (w * c) (2 * i) cd ! (2 * j * c + k)"
    using j by simp
  also have "\<dots> = cd ! (2 * i * (w * c) + (2 * j * c + k))"
    using suc_mult_le [OF i2n, of "w * c"] len q2 by (intro nth_block) simp_all
  finally show ?thesis .
qed

section \<open>The state transform on a frame\<close>

lemma state_frame:
  assumes sh: "shape (raw_state self) = [h, w, c]" and v: "valid (raw_state self)"
  defines "H \<equiv> (min h 194 - 34) div 2" and "W \<equiv> w div 2"
  obtains bw where "state self = Inr bw" and "shape bw = [H, W]"
    and "length (data bw) = H * W"
    and "\<And>i j. i < H \<Longrightarrow> j < W \<Longrightarrow>
           item2 bw i j = (if channel_sum (raw_state self) (34 + 2 * i) (2 * j) \<noteq> 233 then 1 else 0)"
proof -
  let ?a = "raw_state self"
  let ?xs = "data ?a"
  let ?n = "min h 194 - 34"
  define cd where "cd = concat (map (\<lambda>i. block (w * c) i ?xs) [34..<min h 194])"
  define rd where "rd = concat (map (\<lambda>i. concat (map (\<lambda>j. block c j (block (w * c) i cd))
                        (map (\<lambda>k. 2 * k) [0..<w div 2]))) (map (\<lambda>k. 2 * k) [0..<?n div 2]))"
  define gd where "gd = map (\<lambda>p. sum_list (map (\<lambda>k. unat (rd ! (p * c + k))) [0..<c])) [0..<H * W]"
  define bw :: "real ndarray" where "bw = \<lparr>shape = [H, W], data = map (\<lambda>g. if g \<noteq> 233 then 1 else 0) gd\<rparr>"
  have len: "length ?xs = h * w * c"
    using v sh by (simp add: valid_def)
  have crop: "getitem [Slice (Some 34) (Some 194) 1, full, full] ?a =
              Inr \<lparr>shape = [?n, w, c], data = cd\<rparr>"
    unfolding cd_def using sh len by (rule getitem_crop)
  have red: "getitem [Slice (Some 0) (Some (- 1)) 2, Slice (Some 0) (Some (- 1)) 2] \<lparr>shape = [?n, w, c], data = cd\<rparr> =
             Inr \<lparr>shape = [H, W, c], data = rd\<rparr>"
    unfolding rd_def H_def W_def using getitem_reduce [of "\<lparr>shape = [?n, w, c], data = cd\<rparr>" ?n w c]
    by simp
  have gray: "np_sum 2 \<lparr>shape = [H, W, c], data = rd\<rparr> = Inr \<lparr>shape = [H, W], data = gd\<rparr>"
    unfolding gd_def using np_sum_axis2 [of "\<lparr>shape = [H, W, c], data = rd\<rparr>" H W c] by simp
  have lgd: "length gd = H * W"
    by (simp add: gd_def)
  have fin: "setitem_mask (np_not_equal \<lparr>shape = [H, W], data = gd\<rparr> 233) 1 (np_zeros [H, W]) = Inr bw"
    using map2_replicate [OF lgd, of "\<lambda>m x. if m then 1 else x" "\<lambda>x. x \<noteq> 233" "0::real"]
    by (simp add: setitem_mask_def np_not_equal_def np_zeros_def bw_def)
  have st: "state self = Inr bw"
    unfolding state_def crop by (simp add: red gray fin)
  have cdlen: "length cd = ?n * (w * c)"
    unfolding cd_def using len by (rule crop_data(1))
  have elem: "item2 bw i j = (if channel_sum ?a (34 + 2 * i) (2 * j) \<noteq> 233 then 1 else 0)"
    if i: "i < H" and j: "j < W" for i j
  proof -
    have p: "i * W + j < H * W" using i j by (rule flat_index_less)
    have i2: "2 * i < ?n" using i unfolding H_def by simp
    have j2: "2 * j < w" using j unfolding W_def by simp
    have px: "rd ! ((i * W + j) * c + k) = item3 ?a (34 + 2 * i) (2 * j) k" if k: "k < c" for k
    proof -
      have q2: "2 * j * c + k < w * c" using j2 k by (rule flat_index_less)
      have "rd ! ((i * W + j) * c + k) = cd ! (2 * i * (w * c) + (2 * j * c + k))"
        unfolding rd_def W_def using cdlen i [unfolded H_def] j [unfolded W_def] k
        by (rule reduce_data)
      also have "\<dots> = ?xs ! ((34 + 2 * i) * (w * c) + (2 * j * c + k))"
        unfolding cd_def using len i2 q2 by (rule crop_data(2))
      also have "(34 + 2 * i) * (w * c) + (2 * j * c + k) = ((34 + 2 * i) * w + 2 * j) * c + k"
        by (simp add: algebra_simps)
      finally show ?thesis by (simp add: item3_def offset3_def sh)
    qed
    have "gd ! (i * W + j) = sum_list (map (\<lambda>k. unat (rd ! ((i * W + j) * c + k))) [0..<c])"
      using p by (simp add: gd_def)
    also have "\<dots> = sum_list (map (\<lambda>k. unat (item3 ?a (34 + 2 * i) (2 * j) k)) [0..<c])"
      using px by (intro arg_cong [where f = sum_list] map_cong refl) simp
    finally have "gd ! (i * W + j) = channel_sum ?a (34 + 2 * i) (2 * j)"
      by (simp add: channel_sum_def sh)
    then show ?thesis
      using p lgd by (simp add: item2_def bw_def)
  qed
  show thesis
  proof (rule that [OF st])
    show "shape bw = [H, W]" by (simp add: bw_def)
    show "length (data bw) = H * W" by (simp add: bw_def lgd)
    show "\<And>i j. i < H \<Longrightarrow> j < W \<Longrightarrow>
           item2 bw i j = (if channel_sum ?a (34 + 2 * i) (2 * j) \<noteq> 233 then 1 else 0)"
      by (rule elem)
  qed
qed

text \<open>A frame with fewer than three axes makes the first indexing raise.\<close>

lemma state_too_few_axes:
  "length (shape (raw_state self)) < 3 \<Longrightarrow> state self = Inl IndexError"
  by (simp add: state_def getitem_def)

text \<open>Whatever the frame, a result of the transform holds zeros and ones only.\<close>

lemma state_values:
  assumes "state self = Inr bw" and "x \<in> set (data bw)"
  shows "x = 0 \<or> x = 1"
proof -
  from assms(1) obtain g where bw: "setitem_mask (np_not_equal g 233) 1 (np_zeros (shape g)) = Inr bw"
    by (auto simp: state_def split: sum.splits)
  then have "data bw = map2 (\<lambda>m x. if m then 1 else x) (data (np_not_equal g 233)) (replicate (prod_list (shape g)) 0)"
    by (auto simp: setitem_mask_def np_zeros_def split: if_splits)
  with assms(2) show ?thesis
    by (auto simp: set_zip split: if_splits)
qed

lemma channel_sum_rgb:
  assumes "shape a = [h, w, 3]"
  shows "channel_sum a i j = unat (item3 a i j 0) + unat (item3 a i j 1) + unat (item3 a i j 2)"
  using assms by (simp add: channel_sum_def numeral_3_eq_3 numeral_2_eq_2 upt_rec)

lemma offset3_in_frame:
  assumes sh: "shape a = [h, w, c]" and v: "valid a" and "i < h" "j < w" "k < c"
  shows "offset3 a i j k < length (data a)"
proof -
  have "i * w + j < h * w" using assms(3,4) by (rule flat_index_less)
  then have "(i * w + j) * c + k < h * w * c" using assms(5) by (rule flat_index_less)
  then show ?thesis using sh v by (simp add: offset3_def valid_def)
qed

lemma grayscale_crop_standard:
  assumes sh: "shape a = [210, 160, c]"
  shows "shape (grayscale_crop a) = [80, 80]"
    and "length (data (grayscale_crop a)) = 80 * 80"
    and "i < 80 \<Longrightarrow> j < 80 \<Longrightarrow>
         data (grayscale_crop a) ! (i * 80 + j) = real (channel_sum a (34 + 2 * i) (2 * j))"
proof -
  let ?f = "\<lambda>i. map (\<lambda>j. real (channel_sum a (34 + 2 * i) (2 * j))) [0..<80]"
  have dat: "data (grayscale_crop a) = concat (map ?f [0..<80])"
    by (simp add: grayscale_crop_def sh Let_def del: upt_rec_numeral)
  show "shape (grayscale_crop a) = [80, 80]"
    by (simp add: grayscale_crop_def sh Let_def del: upt_rec_numeral)
  show "length (data (grayscale_crop a)) = 80 * 80"
    unfolding dat using length_concat_map_const [of "[0..<80]" ?f 80]
    by (simp del: upt_rec_numeral)
  show "data (grayscale_crop a) ! (i * 80 + j) = real (channel_sum a (34 + 2 * i) (2 * j))"
    if "i < 80" "j < 80"
    unfolding dat using nth_concat_map_const [of "[0..<80]" ?f 80 i j] that
    by (simp del: upt_rec_numeral)
qed

section \<open>The example screen\<close>

lemma pong_frame_shape: "shape (raw_state pong_env) = [210, 160, 3]"
  by (simp add: pong_env_def pong_frame_def)

lemma pong_frame_valid: "valid (raw_state pong_env)"
  by (simp add: pong_env_def pong_frame_def valid_def del: upt_rec_numeral)

lemma pong_frame_nth:
  "p < 100800 \<Longrightarrow> data (raw_state pong_env) ! p =
     (if p div 3 = 16080 then 236 else [144, 72, 17] ! (p mod 3))"
  by (simp add: pong_env_def pong_frame_def del: upt_rec_numeral)

lemma pong_frame_background: "channel_sum (raw_state pong_env) 34 0 = 233"
  using channel_sum_rgb [OF pong_frame_shape, of 34 0]
  by (simp add: item3_def offset3_def pong_frame_shape pong_frame_nth)

lemma pong_frame_ball: "channel_sum (raw_state pong_env) 100 80 = 708"
  using channel_sum_rgb [OF pong_frame_shape, of 100 80]
  by (simp add: item3_def offset3_def pong_frame_shape pong_frame_nth)

lemma pong_state: "\<exists>bw. state pong_env = Inr bw"
  using state_frame [OF pong_frame_shape pong_frame_valid] by metis

section \<open>Invariants of the play loop\<close>

lemma state_gym_update [simp]: "state (e\<lparr>gym := g\<rparr>) = state e"
  by (simp add: state_def)

lemma state_terminated_update [simp]: "state (e\<lparr>terminated := t\<rparr>) = state e"
  by (simp add: state_def)

lemma play_loop_calls:
  assumes "at_test L x c"
  shows "calls_ok L x (final (play_loop L n c))"
  using assms
proof (induction n arbitrary: c)
  case 0
  then show ?case by (simp add: at_test_def calls_ok_def)
next
  case (Suc n)
  show ?case
  proof (cases "terminated (env c)")
    case True
    with Suc.prems show ?thesis by (simp add: at_test_def calls_ok_def)
  next
    case False
    let ?e1 = "(env c)\<lparr>gym := gym_render L (gym (env c))\<rparr>"
    let ?t1 = "trace c @ [(Render, env c, a2c c)]"
    from Suc.prems have ne: "trace c \<noteq> []" and hd: "hd (trace c) = x"
      and suc: "successively (next_call L) (trace c)"
      and nt: "\<forall>y\<in>set (tl (trace c)). \<not> terminated (fst (snd y))"
      and nx: "next_call L (last (trace c)) (Render, env c, a2c c)"
      by (simp_all add: at_test_def)
    have suc1: "successively (next_call L) ?t1"
      using suc nx ne by (simp add: successively_append_iff)
    have nt1: "\<forall>y\<in>set (tl ?t1). \<not> terminated (fst (snd y))"
      using nt ne False by auto
    show ?thesis
    proof (cases "state ?e1")
      case (Inl err)
      then show ?thesis
        using False ne hd suc1 nt1 by (simp add: calls_ok_def)
    next
      case (Inr s)
      obtain a p' where sel: "select_action L s (a2c c) = (a, p')"
        by (cases "select_action L s (a2c c)")
      let ?c' = "\<lparr>env = env_step L a ?e1, a2c = p', trace = ?t1 @ [(Step a, ?e1, a2c c)]\<rparr>"
      have "at_test L x ?c'"
        unfolding at_test_def
      proof (intro conjI)
        show "trace ?c' \<noteq> []" by simp
        show "hd (trace ?c') = x" using ne hd by simp
        show "successively (next_call L) (trace ?c')"
          using suc1 Inr sel by (simp add: successively_append_iff)
        show "\<forall>y\<in>set (tl (trace ?c')). \<not> terminated (fst (snd y))"
          using nt ne False by auto
        show "next_call L (last (trace ?c')) (Render, env ?c', a2c ?c')"
          using Inr sel by simp
      qed
      then have "calls_ok L x (final (play_loop L n ?c'))"
        by (rule Suc.IH)
      then show ?thesis
        using False Inr sel by (simp add: Let_def)
    qed
  qed
qed

lemma play_loop_end:
  "(case play_loop L n c of
      Finished c' \<Rightarrow> terminated (env c')
    | Raised err c' \<Rightarrow> \<not> terminated (env c') \<and> state (env c') = Inl err
    | Running c' \<Rightarrow> \<not> terminated (env c'))"
proof (induction n arbitrary: c)
  case 0
  show ?case by simp
next
  case (Suc n)
  show ?case
    using Suc.IH by (auto simp: Let_def split: sum.splits prod.splits)
qed

lemma play_loop_more_fuel:
  assumes "play_loop L n c = out" and "\<forall>c'. out \<noteq> Running c'"
  shows "play_loop L (n + k) c = out"
  using assms
proof (induction n arbitrary: c)
  case 0
  then show ?case by (cases k) (auto split: if_splits)
next
  case (Suc n)
  show ?case
  proof (cases "terminated (env c)")
    case True
    with Suc.prems show ?thesis by simp
  next
    case False
    let ?e1 = "(env c)\<lparr>gym := gym_render L (gym (env c))\<rparr>"
    show ?thesis
    proof (cases "state ?e1")
      case (Inl err)
      with False Suc.prems show ?thesis by simp
    next
      case (Inr s)
      obtain a p' where sel: "select_action L s (a2c c) = (a, p')"
        by (cases "select_action L s (a2c c)")
      show ?thesis
        using False Inr sel Suc.prems Suc.IH by (simp add: Let_def)
    qed
  qed
qed

lemma play_loop_extends:
  "\<exists>ys. trace (final (play_loop L n c)) = trace c @ ys"
proof (induction n arbitrary: c)
  case 0
  show ?case by simp
next
  case (Suc n)
  show ?case
  proof (cases "terminated (env c)")
    case True
    then show ?thesis by simp
  next
    case False
    let ?e1 = "(env c)\<lparr>gym := gym_render L (gym (env c))\<rparr>"
    show ?thesis
    proof (cases "state ?e1")
      case (Inl err)
      with False show ?thesis by simp
    next
      case (Inr s)
      obtain a p' where sel: "select_action L s (a2c c) = (a, p')"
        by (cases "select_action L s (a2c c)")
      let ?c' = "\<lparr>env = env_step L a ?e1, a2c = p',
                 trace = (trace c @ [(Render, env c, a2c c)]) @ [(Step a, ?e1, a2c c)]\<rparr>"
      obtain ys where "trace (final (play_loop L n ?c')) = trace ?c' @ ys"
        using Suc.IH by blast
      then show ?thesis
        using False Inr sel by (simp add: Let_def)
    qed
  qed
qed

lemma play_loop_renders:
  assumes "\<not> terminated (env c)"
  shows "\<exists>ys. trace (final (play_loop L (Suc n) c)) = trace c @ (Render, env c, a2c c) # ys"
proof -
  let ?e1 = "(env c)\<lparr>gym := gym_render L (gym (env c))\<rparr>"
  show ?thesis
  proof (cases "state ?e1")
    case (Inl err)
    with assms show ?thesis by simp
  next
    case (Inr s)
    obtain a p' where sel: "select_action L s (a2c c) = (a, p')"
      by (cases "select_action L s (a2c c)")
    let ?c' = "\<lparr>env = env_step L a ?e1, a2c = p',
               trace = (trace c @ [(Render, env c, a2c c)]) @ [(Step a, ?e1, a2c c)]\<rparr>"
    obtain ys where "trace (final (play_loop L n ?c')) = trace ?c' @ ys"
      using play_loop_extends by blast
    then show ?thesis
      using assms Inr sel by (simp add: Let_def)
  qed
qed

text \<open>How many turns a run makes, by the way it ends.\<close>

lemma render_step_pairs_Cons:
  "render_step_pairs (a # acts) = Render # Step a # render_step_pairs acts"
  by (simp add: render_step_pairs_def)

lemma render_step_pairs_Nil: "render_step_pairs [] = []"
  by (simp add: render_step_pairs_def)

lemma play_loop_pairs:
  "case play_loop L n c of
     Finished c' \<Rightarrow> \<exists>acts. length acts \<le> n \<and>
       map fst (trace c') = map fst (trace c) @ render_step_pairs acts
   | Raised err c' \<Rightarrow> \<exists>acts. length acts < n \<and>
       map fst (trace c') = map fst (trace c) @ render_step_pairs acts @ [Render]
   | Running c' \<Rightarrow> \<exists>acts. length acts = n \<and>
       map fst (trace c') = map fst (trace c) @ render_step_pairs acts"
proof (induction n arbitrary: c)
  case 0
  show ?case by (simp add: render_step_pairs_Nil)
next
  case (Suc n)
  show ?case
  proof (cases "terminated (env c)")
    case True
    have "length ([] :: 'c list) \<le> Suc n \<and>
        map fst (trace c) = map fst (trace c) @ render_step_pairs ([] :: 'c list)"
      by (simp add: render_step_pairs_Nil)
    then have "\<exists>acts :: 'c list. length acts \<le> Suc n \<and>
        map fst (trace c) = map fst (trace c) @ render_step_pairs acts"
      by (rule exI)
    with True show ?thesis by simp
  next
    case False
    let ?e1 = "(env c)\<lparr>gym := gym_render L (gym (env c))\<rparr>"
    show ?thesis
    proof (cases "state ?e1")
      case (Inl err)
      have "length ([] :: 'c list) < Suc n \<and>
          map fst (trace c @ [(Render, env c, a2c c)]) =
          map fst (trace c) @ render_step_pairs ([] :: 'c list) @ [Render]"
        by (simp add: render_step_pairs_Nil)
      then have "\<exists>acts :: 'c list. length acts < Suc n \<and>
          map fst (trace c @ [(Render, env c, a2c c)]) =
          map fst (trace c) @ render_step_pairs acts @ [Render]"
        by (rule exI)
      with False Inl show ?thesis by simp
    next
      case (Inr s)
      obtain a p' where sel: "select_action L s (a2c c) = (a, p')"
        by (cases "select_action L s (a2c c)")
      let ?c' = "\<lparr>env = env_step L a ?e1, a2c = p',
                 trace = (trace c @ [(Render, env c, a2c c)]) @ [(Step a, ?e1, a2c c)]\<rparr>"
      have step: "play_loop L (Suc n) c = play_loop L n ?c'"
        using False Inr sel by (simp add: Let_def)
      have pre: "map fst (trace ?c') @ render_step_pairs acts =
          map fst (trace c) @ render_step_pairs (a # acts)" for acts
        by (simp add: render_step_pairs_Cons)
      show ?thesis
      proof (cases "play_loop L n ?c'")
        case (Finished c')
        then obtain acts where "length acts \<le> n"
          and "map fst (trace c') = map fst (trace ?c') @ render_step_pairs acts"
          using Suc.IH [of ?c'] by auto
        then have "length (a # acts) \<le> Suc n \<and>
            map fst (trace c') = map fst (trace c) @ render_step_pairs (a # acts)"
          using pre [of acts] by simp
        then have "\<exists>acts. length acts \<le> Suc n \<and>
            map fst (trace c') = map fst (trace c) @ render_step_pairs acts"
          by (rule exI)
        then show ?thesis
          unfolding step Finished by simp
      next
        case (Raised err c')
        then obtain acts where "length acts < n"
          and "map fst (trace c') = map fst (trace ?c') @ render_step_pairs acts @ [Render]"
          using Suc.IH [of ?c'] by auto
        then have "length (a # acts) < Suc n \<and>
            map fst (trace c') = map fst (trace c) @ render_step_pairs (a # acts) @ [Render]"
          by (simp add: render_step_pairs_Cons)
        then have "\<exists>acts. length acts < Suc n \<and>
            map fst (trace c') = map fst (trace c) @ render_step_pairs acts @ [Render]"
          by (rule exI)
        then show ?thesis
          unfolding step Raised by simp
      next
        case (Running c')
        then obtain acts where "length acts = n"
          and "map fst (trace c') = map fst (trace ?c') @ render_step_pairs acts"
          using Suc.IH [of ?c'] by auto
        then have "length (a # acts) = Suc n \<and>
            map fst (trace c') = map fst (trace c) @ render_step_pairs (a # acts)"
          using pre [of acts] by simp
        then have "\<exists>acts. length acts = Suc n \<and>
            map fst (trace c') = map fst (trace c) @ render_step_pairs acts"
          by (rule exI)
        then show ?thesis
          unfolding step Running by simp
      qed
    qed
  qed
qed

section \<open>The claims\<close>

subsection \<open>The state transform\<close>


text \<open>
  Claim C1 says that \<open>state\<close> returns the cropped and reduced grayscale image as
  it is. It does not: on the example screen the result differs from that image, which
  holds the channel sum 233 of the background where \<open>state\<close> returns 0.
\<close>

theorem state_not_grayscale_counterexample:
  "state pong_env \<noteq> Inr (grayscale_crop (raw_state pong_env))"
proof
  assume eq: "state pong_env = Inr (grayscale_crop (raw_state pong_env))"
  obtain bw where st: "state pong_env = Inr bw"
    and shp: "shape bw = [(min 210 194 - 34) div 2, 160 div 2]"
    and el: "\<And>i j. i < (min 210 194 - 34) div 2 \<Longrightarrow> j < 160 div 2 \<Longrightarrow>
           item2 bw i j = (if channel_sum (raw_state pong_env) (34 + 2 * i) (2 * j) \<noteq> 233 then 1 else 0)"
    using state_frame [OF pong_frame_shape pong_frame_valid] by metis
  have "item2 bw 0 0 = 0"
    using el [of 0 0] by (simp add: pong_frame_background)
  moreover have "item2 (grayscale_crop (raw_state pong_env)) 0 0 = 233"
    using grayscale_crop_standard(3) [OF pong_frame_shape, of 0 0]
      grayscale_crop_standard(1) [OF pong_frame_shape]
    by (simp add: item2_def pong_frame_background)
  moreover have "bw = grayscale_crop (raw_state pong_env)"
    using st eq by simp
  ultimately show False by simp
qed

text \<open>
  Claim C1, amended: for a raw frame of the standard shape \<open>(210, 160, 3)\<close>,
  \<open>state\<close> crops the frame to the rows 34 to 193, keeps every second row and every
  second column of the crop, adds the colour channels of each pixel kept, and then
  converts that image to black and white: it returns the array of the same shape that
  holds 1 where the sum differs from 233 and 0 where it is 233.
\<close>

theorem state_thresholds_grayscale_crop:
  assumes "shape (raw_state self) = [210, 160, 3]" and "valid (raw_state self)"
  shows "state self =
         Inr \<lparr>shape = shape (grayscale_crop (raw_state self)),
              data = map (\<lambda>g. if g \<noteq> 233 then 1 else 0)
                       (data (grayscale_crop (raw_state self)))\<rparr>"
proof -
  let ?a = "raw_state self"
  let ?gc = "grayscale_crop ?a"
  obtain bw where st: "state self = Inr bw"
    and shp: "shape bw = [(min 210 194 - 34) div 2, 160 div 2]"
    and len: "length (data bw) = (min 210 194 - 34) div 2 * (160 div 2)"
    and el: "\<And>i j. i < (min 210 194 - 34) div 2 \<Longrightarrow> j < 160 div 2 \<Longrightarrow>
           item2 bw i j = (if channel_sum ?a (34 + 2 * i) (2 * j) \<noteq> 233 then 1 else 0)"
    using state_frame [OF assms] by metis
  have gshape: "shape ?gc = [80, 80]"
    using assms(1) by (rule grayscale_crop_standard(1))
  have glen: "length (data ?gc) = 80 * 80"
    using assms(1) by (rule grayscale_crop_standard(2))
  have "data bw ! p = map (\<lambda>g. if g \<noteq> 233 then 1 else 0) (data ?gc) ! p"
    if p: "p < 80 * 80" for p
  proof -
    define i j where "i = p div 80" and "j = p mod 80"
    have ij: "i < 80" "j < 80" and pij: "p = i * 80 + j"
      using p by (simp_all add: i_def j_def less_mult_imp_div_less)
    have "data bw ! p = item2 bw i j"
      by (simp add: item2_def shp pij)
    also have "\<dots> = (if channel_sum ?a (34 + 2 * i) (2 * j) \<noteq> 233 then 1 else 0)"
      using el [of i j] ij by simp
    also have "\<dots> = (if data ?gc ! p \<noteq> 233 then 1 else 0)"
      unfolding pij using grayscale_crop_standard(3) [OF assms(1) ij] by simp
    finally show ?thesis using p glen by simp
  qed
  then have "data bw = map (\<lambda>g. if g \<noteq> 233 then 1 else 0) (data ?gc)"
    using len glen by (intro nth_equalityI) simp_all
  moreover have "shape bw = shape ?gc"
    using shp gshape by simp
  ultimately show ?thesis
    using st by simp
qed

theorem state_thresholds_grayscale_crop_witness:
  "shape (raw_state pong_env) = [210, 160, 3] \<and> valid (raw_state pong_env) \<and>
   state pong_env =
     Inr \<lparr>shape = shape (grayscale_crop (raw_state pong_env)),
          data = map (\<lambda>g. if g \<noteq> 233 then 1 else 0)
                   (data (grayscale_crop (raw_state pong_env)))\<rparr>"
  using state_thresholds_grayscale_crop [OF pong_frame_shape pong_frame_valid]
    pong_frame_shape pong_frame_valid by blast

text \<open>
  Claim C2: for a raw frame of the standard screen shape \<open>(210, 160, 3)\<close> the
  \<open>state\<close> property returns an array of shape \<open>(80, 80)\<close>, which is the
  \<open>_state_shape\<close> that \<open>PongEnv.__init__\<close> sets.
\<close>

theorem state_has_state_shape:
  assumes "shape (raw_state self) = [210, 160, 3]" and "valid (raw_state self)"
  shows "\<exists>bw. state self = Inr bw \<and> shape bw = [80, 80] \<and>
              shape bw = state_shape (PongEnv_init super_init)"
proof -
  obtain bw where "state self = Inr bw" and "shape bw = [(min 210 194 - 34) div 2, 160 div 2]"
    using state_frame [OF assms] by metis
  then show ?thesis by (simp add: PongEnv_init_def)
qed

theorem state_has_state_shape_witness:
  "shape (raw_state pong_env) = [210, 160, 3] \<and> valid (raw_state pong_env) \<and>
   (\<exists>bw. state pong_env = Inr bw \<and> shape bw = [80, 80] \<and>
         shape bw = state_shape (PongEnv_init (\<lambda>name. pong_env)))"
  using state_has_state_shape [OF pong_frame_shape pong_frame_valid, of "\<lambda>name. pong_env"]
    pong_frame_shape pong_frame_valid by simp

text \<open>
  Claim C8: for a raw frame (any height and width, three channels) every element of the
  array that \<open>state\<close> returns is 0 or 1; the element at \<open>(i, j)\<close> is 1
  exactly when the three channels of the pixel in row \<open>34 + 2i\<close> and column
  \<open>2j\<close> do not add up to 233, and 0 exactly when they do.
\<close>

theorem state_black_and_white:
  assumes "shape (raw_state self) = [h, w, 3]" and "valid (raw_state self)"
  shows "\<exists>bw. state self = Inr bw \<and> (\<forall>x\<in>set (data bw). x = 0 \<or> x = 1) \<and>
           (\<forall>i<(min h 194 - 34) div 2. \<forall>j<w div 2.
              (item2 bw i j = 1 \<longleftrightarrow>
                 unat (item3 (raw_state self) (34 + 2 * i) (2 * j) 0) +
                 unat (item3 (raw_state self) (34 + 2 * i) (2 * j) 1) +
                 unat (item3 (raw_state self) (34 + 2 * i) (2 * j) 2) \<noteq> 233) \<and>
              (item2 bw i j = 0 \<longleftrightarrow>
                 unat (item3 (raw_state self) (34 + 2 * i) (2 * j) 0) +
                 unat (item3 (raw_state self) (34 + 2 * i) (2 * j) 1) +
                 unat (item3 (raw_state self) (34 + 2 * i) (2 * j) 2) = 233))"
proof -
  obtain bw where st: "state self = Inr bw"
    and el: "\<And>i j. i < (min h 194 - 34) div 2 \<Longrightarrow> j < w div 2 \<Longrightarrow>
           item2 bw i j = (if channel_sum (raw_state self) (34 + 2 * i) (2 * j) \<noteq> 233 then 1 else 0)"
    using state_frame [OF assms] by metis
  have "\<forall>x\<in>set (data bw). x = 0 \<or> x = 1"
    using state_values [OF st] by blast
  moreover have "(item2 bw i j = 1 \<longleftrightarrow>
                 unat (item3 (raw_state self) (34 + 2 * i) (2 * j) 0) +
                 unat (item3 (raw_state self) (34 + 2 * i) (2 * j) 1) +
                 unat (item3 (raw_state self) (34 + 2 * i) (2 * j) 2) \<noteq> 233) \<and>
              (item2 bw i j = 0 \<longleftrightarrow>
                 unat (item3 (raw_state self) (34 + 2 * i) (2 * j) 0) +
                 unat (item3 (raw_state self) (34 + 2 * i) (2 * j) 1) +
                 unat (item3 (raw_state self) (34 + 2 * i) (2 * j) 2) = 233)"
    if "i < (min h 194 - 34) div 2" "j < w div 2" for i j
    using el [OF that] channel_sum_rgb [OF assms(1), of "34 + 2 * i" "2 * j"] by simp
  ultimately show ?thesis using st by blast
qed

theorem state_black_and_white_witness:
  "shape (raw_state pong_env) = [210, 160, 3] \<and> valid (raw_state pong_env) \<and>
   (\<exists>bw. state pong_env = Inr bw \<and> (\<forall>x\<in>set (data bw). x = 0 \<or> x = 1) \<and>
         item2 bw 33 40 = 1 \<and> item2 bw 0 0 = 0)"
proof -
  obtain bw where st: "state pong_env = Inr bw"
    and bin: "\<forall>x\<in>set (data bw). x = 0 \<or> x = 1"
    and el: "\<forall>i<(min 210 194 - 34) div 2. \<forall>j<160 div 2.
              (item2 bw i j = 1 \<longleftrightarrow>
                 unat (item3 (raw_state pong_env) (34 + 2 * i) (2 * j) 0) +
                 unat (item3 (raw_state pong_env) (34 + 2 * i) (2 * j) 1) +
                 unat (item3 (raw_state pong_env) (34 + 2 * i) (2 * j) 2) \<noteq> 233) \<and>
              (item2 bw i j = 0 \<longleftrightarrow>
                 unat (item3 (raw_state pong_env) (34 + 2 * i) (2 * j) 0) +
                 unat (item3 (raw_state pong_env) (34 + 2 * i) (2 * j) 1) +
                 unat (item3 (raw_state pong_env) (34 + 2 * i) (2 * j) 2) = 233)"
    using state_black_and_white [OF pong_frame_shape pong_frame_valid] by blast
  have "item2 bw 33 40 = 1"
    using el [rule_format, of 33 40] by (simp add: item3_def offset3_def pong_frame_shape pong_frame_nth)
  moreover have "item2 bw 0 0 = 0"
    using el [rule_format, of 0 0] by (simp add: item3_def offset3_def pong_frame_shape pong_frame_nth)
  ultimately show ?thesis
    using st bin pong_frame_shape pong_frame_valid by blast
qed

text \<open>
  Claim C10: on a raw frame of shape \<open>(210, 160, 3)\<close> the \<open>state\<close> property
  returns an array and raises nothing. The row slice \<open>34:194\<close> selects the rows 34
  to 193 unclipped, all below 210; the slice \<open>0:-1:2\<close> selects the even positions
  below 159 on an axis of length 160; every element that the transform reads from the
  frame lies inside its buffer; and the result is again a well-formed array.
\<close>

theorem state_total_on_standard_frame:
  assumes "shape (raw_state self) = [210, 160, 3]" and "valid (raw_state self)"
  shows "(\<exists>bw. state self = Inr bw \<and> valid bw) \<and>
         indices (Slice (Some 34) (Some 194) 1) 210 = [34..<194] \<and>
         indices (Slice (Some 0) (Some (- 1)) 2) 160 = map (\<lambda>k. 2 * k) [0..<80] \<and>
         (\<forall>i\<in>set (indices (Slice (Some 34) (Some 194) 1) 210). i < 210) \<and>
         (\<forall>i\<in>set (indices (Slice (Some 0) (Some (- 1)) 2) 160). i < 160) \<and>
         (\<forall>i<80. \<forall>j<80. \<forall>k<3.
            offset3 (raw_state self) (34 + 2 * i) (2 * j) k < length (data (raw_state self)))"
proof -
  obtain bw where st: "state self = Inr bw"
    and "shape bw = [(min 210 194 - 34) div 2, 160 div 2]"
    and "length (data bw) = (min 210 194 - 34) div 2 * (160 div 2)"
    using state_frame [OF assms] by metis
  then have "\<exists>bw. state self = Inr bw \<and> valid bw"
    by (simp add: valid_def)
  moreover have crop: "indices (Slice (Some 34) (Some 194) 1) 210 = [34..<194]"
    using indices_crop [of 210] by (simp del: upt_rec_numeral)
  moreover have eo: "indices (Slice (Some 0) (Some (- 1)) 2) 160 = map (\<lambda>k. 2 * k) [0..<80]"
    using indices_every_other [of 160] by (simp del: upt_rec_numeral)
  moreover have "\<forall>i\<in>set (indices (Slice (Some 34) (Some 194) 1) 210). i < 210"
    unfolding crop by (simp del: upt_rec_numeral)
  moreover have "\<forall>i\<in>set (indices (Slice (Some 0) (Some (- 1)) 2) 160). i < 160"
    unfolding eo by (auto simp del: upt_rec_numeral)
  moreover have "offset3 (raw_state self) (34 + 2 * i) (2 * j) k < length (data (raw_state self))"
    if "i < 80" "j < 80" "k < 3" for i j k
    by (rule offset3_in_frame [OF assms]) (use that in simp_all)
  ultimately show ?thesis by blast
qed

theorem state_total_on_standard_frame_witness:
  "shape (raw_state pong_env) = [210, 160, 3] \<and> valid (raw_state pong_env) \<and>
   (\<exists>bw. state pong_env = Inr bw \<and> valid bw) \<and>
   offset3 (raw_state pong_env) (34 + 2 * 79) (2 * 79) 2 < length (data (raw_state pong_env))"
proof -
  note total = state_total_on_standard_frame [OF pong_frame_shape pong_frame_valid]
  from total have "\<exists>bw. state pong_env = Inr bw \<and> valid bw"
    by (rule conjunct1)
  moreover from total have "\<forall>i<80. \<forall>j<80. \<forall>k<3.
      offset3 (raw_state pong_env) (34 + 2 * i) (2 * j) k < length (data (raw_state pong_env))"
    by (elim conjE)
  then have "79 < (80::nat) \<longrightarrow> 79 < (80::nat) \<longrightarrow> 2 < (3::nat) \<longrightarrow>
      offset3 (raw_state pong_env) (34 + 2 * 79) (2 * 79) 2 < length (data (raw_state pong_env))"
    by blast
  then have "offset3 (raw_state pong_env) (34 + 2 * 79) (2 * 79) 2 < length (data (raw_state pong_env))"
    by simp
  ultimately show ?thesis
    using pong_frame_shape pong_frame_valid by blast
qed

subsection \<open>The copy and the policy\<close>


text \<open>
  Claim C9: \<open>__deepcopy__\<close> returns a newly constructed \<open>PongEnv()\<close>,
  whatever the environment and the memo are: the copies of two environments are the
  same, and the copy carries the state shape \<open>(80, 80)\<close> of a new environment.
\<close>

theorem deepcopy_fresh:
  "deepcopy super_init self memo = PongEnv_init super_init \<and>
   deepcopy super_init self memo = deepcopy super_init self' memo' \<and>
   state_shape (deepcopy super_init self memo) = [80, 80]"
  by (simp add: deepcopy_def PongEnv_init_def)

text \<open>
  Claim C3: \<open>PongPolicy\<close> declares the output names \<open>action_prob\<close>,
  \<open>value\<close>, \<open>rnn_state\<close> and one initial recurrent state, the zero vector of
  length 16. The model of \<open>create_model\<close> has three outputs: a softmax layer of
  \<open>env.n_actions\<close> units, a layer of one unit without activation on the same input,
  and the final state of a GRU of width 16 whose initial state is the second input of the
  model, of shape \<open>(16,)\<close>.
\<close>

theorem policy_topology:
  "output_names PongPolicy_init = [''action_prob'', ''value'', ''rnn_state''] \<and>
   rnn_initial_states PongPolicy_init = [replicate 16 0] \<and>
   inputs (create_model e) = [Input [80, 80], Input [16]] \<and>
   length (outputs (create_model e)) = 3 \<and>
   (\<exists>x. outputs (create_model e) ! 0 = Dense (n_actions e) Softmax x \<and>
        outputs (create_model e) ! 1 = Dense 1 Linear x) \<and>
   (\<exists>y. outputs (create_model e) ! 2 =
        GRU 16 True True True FinalState y (inputs (create_model e) ! 1))"
  by (simp add: PongPolicy_init_def create_model_def Let_def)

subsection \<open>The play loop\<close>


text \<open>
  Claim C5: the first call of the play loop is the reset; after it the calls come in
  the order that \<open>next_call\<close> allows, a render and then a step whose action is
  \<open>select_action\<close> of \<open>env.state\<close>, each on the environment that the call
  before it left, and there is such a call whenever the game is on after the reset.
  Every render and every step is made while \<open>env.terminated\<close> is false. When the
  loop ends \<open>env.terminated\<close> is true, and no amount of further fuel adds a call:
  nothing is rendered or stepped after the game is over. The loop repeats: a run that
  is still going after \<open>n\<close> turns has made exactly \<open>n\<close> pairs of a render and a
  step, a run that ended has made at most \<open>n\<close> pairs and nothing else, and a render
  without its step is the last call only of a run in which \<open>env.state\<close> raised.
\<close>

theorem play_loop_order:
  "\<exists>calls. trace (final (play L n e p)) = (Reset, e, p) # calls \<and>
     successively (next_call L) ((Reset, e, p) # calls) \<and>
     (\<forall>y\<in>set calls. \<not> terminated (fst (snd y))) \<and>
     (\<not> terminated (env_reset L e) \<and> 0 < n \<longrightarrow> calls \<noteq> []) \<and>
     (case play L n e p of
        Finished c \<Rightarrow> terminated (env c) \<and> (\<forall>k. play L (n + k) e p = Finished c)
      | Raised err c \<Rightarrow> \<not> terminated (env c) \<and> state (env c) = Inl err
      | Running c \<Rightarrow> \<not> terminated (env c)) \<and>
     (case play L n e p of
        Finished c \<Rightarrow>
          \<exists>acts. length acts \<le> n \<and> map fst calls = render_step_pairs acts
      | Raised err c \<Rightarrow>
          \<exists>acts. length acts < n \<and> map fst calls = render_step_pairs acts @ [Render]
      | Running c \<Rightarrow>
          \<exists>acts. length acts = n \<and> map fst calls = render_step_pairs acts)"
proof -
  let ?c0 = "\<lparr>env = env_reset L e, a2c = p, trace = [(Reset, e, p)]\<rparr>"
  let ?tr = "trace (final (play L n e p))"
  have "at_test L (Reset, e, p) ?c0"
    by (simp add: at_test_def)
  then have "calls_ok L (Reset, e, p) (final (play_loop L n ?c0))"
    by (rule play_loop_calls)
  then have ok: "?tr \<noteq> []" "hd ?tr = (Reset, e, p)" "successively (next_call L) ?tr"
      "\<forall>y\<in>set (tl ?tr). \<not> terminated (fst (snd y))"
    by (simp_all add: calls_ok_def play_def)
  from ok(1,2) have tr: "?tr = (Reset, e, p) # tl ?tr"
    by (cases ?tr) simp_all
  have first: "tl ?tr \<noteq> []" if "\<not> terminated (env_reset L e)" "0 < n"
  proof -
    from that(2) obtain m where n: "n = Suc m"
      by (cases n) simp_all
    have "\<exists>ys. trace (final (play_loop L (Suc m) ?c0)) =
        trace ?c0 @ (Render, env ?c0, a2c ?c0) # ys"
      using play_loop_renders [of ?c0 L m] that(1) by (simp del: play_loop.simps)
    then obtain ys where "trace (final (play_loop L (Suc m) ?c0)) =
        trace ?c0 @ (Render, env ?c0, a2c ?c0) # ys"
      by blast
    then show ?thesis
      by (simp add: play_def n del: play_loop.simps)
  qed
  have "play L (n + k) e p = Finished c" if "play L n e p = Finished c" for c k
    using that play_loop_more_fuel [of L n ?c0 "Finished c" k] by (simp add: play_def)
  then have fin: "case play L n e p of
      Finished c \<Rightarrow> terminated (env c) \<and> (\<forall>k. play L (n + k) e p = Finished c)
    | Raised err c \<Rightarrow> \<not> terminated (env c) \<and> state (env c) = Inl err
    | Running c \<Rightarrow> \<not> terminated (env c)"
    using play_loop_end [of L n ?c0] by (auto simp: play_def split: outcome.splits)
  have turns: "case play L n e p of
      Finished c \<Rightarrow>
        \<exists>acts. length acts \<le> n \<and> map fst (tl ?tr) = render_step_pairs acts
    | Raised err c \<Rightarrow>
        \<exists>acts. length acts < n \<and> map fst (tl ?tr) = render_step_pairs acts @ [Render]
    | Running c \<Rightarrow>
        \<exists>acts. length acts = n \<and> map fst (tl ?tr) = render_step_pairs acts"
    using play_loop_pairs [where L = L and n = n and c = ?c0]
    by (auto simp: play_def map_tl split: outcome.splits)
  have "?tr = (Reset, e, p) # tl ?tr \<and>
     successively (next_call L) ((Reset, e, p) # tl ?tr) \<and>
     (\<forall>y\<in>set (tl ?tr). \<not> terminated (fst (snd y))) \<and>
     (\<not> terminated (env_reset L e) \<and> 0 < n \<longrightarrow> tl ?tr \<noteq> []) \<and>
     (case play L n e p of
        Finished c \<Rightarrow> terminated (env c) \<and> (\<forall>k. play L (n + k) e p = Finished c)
      | Raised err c \<Rightarrow> \<not> terminated (env c) \<and> state (env c) = Inl err
      | Running c \<Rightarrow> \<not> terminated (env c)) \<and>
     (case play L n e p of
        Finished c \<Rightarrow>
          \<exists>acts. length acts \<le> n \<and> map fst (tl ?tr) = render_step_pairs acts
      | Raised err c \<Rightarrow>
          \<exists>acts. length acts < n \<and> map fst (tl ?tr) = render_step_pairs acts @ [Render]
      | Running c \<Rightarrow>
          \<exists>acts. length acts = n \<and> map fst (tl ?tr) = render_step_pairs acts)"
    using tr ok(3,4) first fin turns by (intro conjI impI) simp_all
  then show ?thesis by (rule exI)
qed

theorem play_loop_order_witness:
  "\<exists>bw c calls. state pong_env = Inr bw \<and>
     play demo_library (Suc (Suc (Suc 0))) pong_env () = Finished c \<and>
     trace c = (Reset, pong_env, ()) # calls \<and>
     map fst calls = [Render, Step 0, Render, Step 0] \<and>
     successively (next_call demo_library) ((Reset, pong_env, ()) # calls) \<and>
     (\<forall>y\<in>set calls. \<not> terminated (fst (snd y))) \<and>
     terminated (env c) \<and>
     play demo_library (Suc (Suc (Suc 4))) pong_env () = Finished c \<and>
     (\<exists>acts. length acts \<le> Suc (Suc (Suc 0)) \<and> map fst calls = render_step_pairs acts)"
proof -
  obtain bw where bw: "state pong_env = Inr bw"
    using pong_state by blast
  define c where "c = final (play demo_library (Suc (Suc (Suc 0))) pong_env ())"
  have run: "play demo_library (Suc (Suc (Suc 0))) pong_env () = Finished c"
    unfolding c_def by (simp add: play_def demo_library_def bw)
  have tr: "map fst (trace c) = [Reset, Render, Step 0, Render, Step 0]"
    unfolding c_def by (simp add: play_def demo_library_def bw)
  obtain calls where calls: "trace c = (Reset, pong_env, ()) # calls"
      and order: "successively (next_call demo_library) ((Reset, pong_env, ()) # calls)"
      and running: "\<forall>y\<in>set calls. \<not> terminated (fst (snd y))"
      and fin: "case play demo_library (Suc (Suc (Suc 0))) pong_env () of
          Finished c \<Rightarrow> terminated (env c) \<and>
            (\<forall>k. play demo_library (Suc (Suc (Suc 0)) + k) pong_env () = Finished c)
        | Raised err c \<Rightarrow> \<not> terminated (env c) \<and> state (env c) = Inl err
        | Running c \<Rightarrow> \<not> terminated (env c)"
      and turns: "case play demo_library (Suc (Suc (Suc 0))) pong_env () of
          Finished c \<Rightarrow>
            \<exists>acts. length acts \<le> Suc (Suc (Suc 0)) \<and> map fst calls = render_step_pairs acts
        | Raised err c \<Rightarrow>
            \<exists>acts. length acts < Suc (Suc (Suc 0)) \<and>
              map fst calls = render_step_pairs acts @ [Render]
        | Running c \<Rightarrow>
            \<exists>acts. length acts = Suc (Suc (Suc 0)) \<and> map fst calls = render_step_pairs acts"
    using play_loop_order [of demo_library "Suc (Suc (Suc 0))" pong_env "()"]
    unfolding c_def by blast
  from fin run have over: "terminated (env c)"
    and more: "\<forall>k. play demo_library (Suc (Suc (Suc k))) pong_env () = Finished c"
    by simp_all
  from more have later: "play demo_library (Suc (Suc (Suc 4))) pong_env () = Finished c"
    by blast
  from tr calls have names: "map fst calls = [Render, Step 0, Render, Step 0]"
    by simp
  from turns run have pairs:
    "\<exists>acts. length acts \<le> Suc (Suc (Suc 0)) \<and> map fst calls = render_step_pairs acts"
    by simp
  have "state pong_env = Inr bw \<and>
     play demo_library (Suc (Suc (Suc 0))) pong_env () = Finished c \<and>
     trace c = (Reset, pong_env, ()) # calls \<and>
     map fst calls = [Render, Step 0, Render, Step 0] \<and>
     successively (next_call demo_library) ((Reset, pong_env, ()) # calls) \<and>
     (\<forall>y\<in>set calls. \<not> terminated (fst (snd y))) \<and>
     terminated (env c) \<and>
     play demo_library (Suc (Suc (Suc 4))) pong_env () = Finished c \<and>
     (\<exists>acts. length acts \<le> Suc (Suc (Suc 0)) \<and> map fst calls = render_step_pairs acts)"
    using bw run calls names order running over later pairs by (intro conjI)
  then show ?thesis by (intro exI)
qed

end
